theory Spec2Isabelle
  imports Main "HOL-Library.Word" "HOL-Library.Signed_Division" "HOL-Library.Monad_Syntax"
begin

unbundle bit_operations_syntax

section \<open>Memory model\<close>

text \<open>
  The codec works on caller-owned buffers through raw pointers, the output may alias the
  input, and the decoder reads \<open>encoded[-1]\<close> and \<open>encoded[-2]\<close>. Memory is
  therefore an explicit store from addresses to bytes; a pointer is an address and pointer
  arithmetic is integer arithmetic.

  A C \<open>int\<close> has 32 bits. In the encoder \<open>target_size\<close> leaves that range for inputs
  of 1610612734 bytes and more, so every \<open>int\<close> addition, subtraction and multiplication
  of the encoder is followed by \<open>int32\<close>, the two's complement wrap-around that the
  compiled code performs (signed overflow is undefined in C). An \<open>int\<close> added to a
  pointer is sign-extended, so the addresses themselves are not wrapped. The counters of
  the decoder (\<open>base64_len\<close>, \<open>written\<close>) are mathematical integers; in the runs
  considered below they stay within the range of \<open>int\<close>.
\<close>

type_synonym byte = "8 word"
type_synonym mem = "int \<Rightarrow> byte"

text \<open>\<open>int32 x\<close> is the 32-bit two's complement value of \<open>x\<close>, between \<open>-2^31\<close> and \<open>2^31 - 1\<close>.\<close>

definition int32 :: "int \<Rightarrow> int" where
  "int32 x = (x + 2147483648) mod 4294967296 - 2147483648"

definition bytes_of :: "string \<Rightarrow> byte list" where
  "bytes_of s = map (\<lambda>c. of_nat (of_char c)) s"

text \<open>\<open>load m p n\<close> is the content of the \<open>n\<close> bytes at address \<open>p\<close>.\<close>

definition load :: "mem \<Rightarrow> int \<Rightarrow> nat \<Rightarrow> byte list" where
  "load m p n = map (\<lambda>i. m (p + int i)) [0..<n]"

text \<open>\<open>store m p bs\<close> places the bytes \<open>bs\<close> at address \<open>p\<close> (used to set up inputs).\<close>

fun store :: "mem \<Rightarrow> int \<Rightarrow> byte list \<Rightarrow> mem" where
  "store m p [] = m"
| "store m p (b # bs) = store (m(p := b)) (p + 1) bs"

section \<open>Base64 encoding\<close>

text \<open>The two forward tables (64 symbols and the padding character).\<close>

definition base64_encodes_original :: "byte list" where
  "base64_encodes_original =
     bytes_of ''ABCDEFGHIJKLMNOPQRSTUVWXYZabcdefghijklmnopqrstuvwxyz0123456789+/=''"

definition base64_encodes_url :: "byte list" where
  "base64_encodes_url =
     bytes_of ''ABCDEFGHIJKLMNOPQRSTUVWXYZabcdefghijklmnopqrstuvwxyz0123456789-_=''"

text \<open>The character \<open>'='\<close>.\<close>

abbreviation (input) PAD :: byte where
  "PAD \<equiv> 0x3D"

text \<open>
  The table index expressions of the encoder. In C the \<open>char\<close> operands are promoted to
  \<open>int\<close>; every index is masked to at most six bits, so it is the same for signed and
  unsigned \<open>char\<close>, and it is computed here on the byte itself.
\<close>

text \<open>\<open>case 2\<close> of the switch: two input bytes left over.\<close>

definition encode_tail2 :: "byte list \<Rightarrow> mem \<Rightarrow> int \<Rightarrow> int \<Rightarrow> mem" where
  "encode_tail2 base64_encodes m writer reader =
     (let tmp2 = m reader;
          tmp1 = m (reader - 1);
          m = m(writer := PAD);
          m = m(writer - 1 := base64_encodes ! unat (push_bit 2 (tmp2 AND 15)));
          m = m(writer - 2 := base64_encodes !
                  unat (push_bit 4 (tmp1 AND 3) OR (drop_bit 4 tmp2 AND 15)));
          m = m(writer - 3 := base64_encodes ! unat (drop_bit 2 tmp1 AND 63))
      in m)"

text \<open>\<open>case 1\<close> of the switch: one input byte left over.\<close>

definition encode_tail1 :: "byte list \<Rightarrow> mem \<Rightarrow> int \<Rightarrow> int \<Rightarrow> mem" where
  "encode_tail1 base64_encodes m writer reader =
     (let tmp1 = m reader;
          m = m(writer := PAD);
          m = m(writer - 1 := PAD);
          m = m(writer - 2 := base64_encodes ! unat (push_bit 4 (tmp1 AND 3)));
          m = m(writer - 3 := base64_encodes ! unat (drop_bit 2 tmp1 AND 63))
      in m)"

text \<open>One pass of the \<open>while (groups)\<close> body: three bytes read, four characters written.\<close>

definition encode_group :: "byte list \<Rightarrow> mem \<Rightarrow> int \<Rightarrow> int \<Rightarrow> mem" where
  "encode_group base64_encodes m writer reader =
     (let tmp3 = m reader;
          tmp2 = m (reader - 1);
          tmp1 = m (reader - 2);
          m = m(writer := base64_encodes ! unat (tmp3 AND 63));
          m = m(writer - 1 := base64_encodes !
                  unat (push_bit 2 (tmp2 AND 15) OR (drop_bit 6 tmp3 AND 3)));
          m = m(writer - 2 := base64_encodes !
                  unat (push_bit 4 (tmp1 AND 3) OR (drop_bit 4 tmp2 AND 15)));
          m = m(writer - 3 := base64_encodes ! unat (drop_bit 2 tmp1 AND 63))
      in m)"

text \<open>
  The loop \<open>while (groups) { groups--; ... }\<close>, as a partial function
  (\<open>None\<close> is "does not return"). That it returns for \<open>0 \<le> groups < 2^31\<close> is lemma
  \<open>encode_groups_eq\<close>.
\<close>

partial_function (option) encode_groups ::
  "byte list \<Rightarrow> mem \<Rightarrow> int \<Rightarrow> int \<Rightarrow> int \<Rightarrow> mem option" where
  "encode_groups base64_encodes m writer reader groups =
     (if groups \<noteq> 0
      then encode_groups base64_encodes (encode_group base64_encodes m writer reader)
             (writer - 4) (reader - 3) (int32 (groups - 1))
      else Some m)"

declare encode_groups.simps [code]

text \<open>
  \<open>fio_base64_encode_internal\<close>. The result is the store after the call and the returned
  \<open>target_size\<close>. \<open>len\<close> is an \<open>int\<close> of the caller, between \<open>-2^31\<close> and
  \<open>2^31 - 1\<close>. C division truncates towards zero (\<open>sdiv\<close>).
\<close>

definition fio_base64_encode_internal ::
  "mem \<Rightarrow> int \<Rightarrow> int \<Rightarrow> int \<Rightarrow> byte list \<Rightarrow> (mem \<times> int) option" where
  "fio_base64_encode_internal m target data len base64_encodes =
     (let groups = len sdiv 3;
          mod' = int32 (len - int32 (groups * 3));
          target_size = int32 (int32 (groups + (if mod' \<noteq> 0 then 1 else 0)) * 4);
          writer = target + target_size - 1;
          reader = data + len - 1;
          m = m(writer + 1 := 0)
      in if mod' = 2 then
           map_option (\<lambda>m. (m, target_size))
             (encode_groups base64_encodes
                (encode_tail2 base64_encodes m writer reader) (writer - 4) (reader - 2) groups)
         else if mod' = 1 then
           map_option (\<lambda>m. (m, target_size))
             (encode_groups base64_encodes
                (encode_tail1 base64_encodes m writer reader) (writer - 4) (reader - 1) groups)
         else
           map_option (\<lambda>m. (m, target_size))
             (encode_groups base64_encodes m writer reader groups))"

definition fio_base64_encode :: "mem \<Rightarrow> int \<Rightarrow> int \<Rightarrow> int \<Rightarrow> (mem \<times> int) option" where
  "fio_base64_encode m target data len =
     fio_base64_encode_internal m target data len base64_encodes_original"

definition fio_base64url_encode :: "mem \<Rightarrow> int \<Rightarrow> int \<Rightarrow> int \<Rightarrow> (mem \<times> int) option" where
  "fio_base64url_encode m target data len =
     fio_base64_encode_internal m target data len base64_encodes_url"

section \<open>Base64 decoding\<close>

text \<open>
  The shared backward table \<open>base64_decodes\<close>, indexed by byte value, as it stands in the
  source (\<open>unsigned\<close> entries), one list for each line of the initialiser.
\<close>

definition base64_decodes :: "32 word list" where
  "base64_decodes =
      [0, 0, 0, 0, 0, 0, 0, 0, 0, 0, 0, 0, 0, 0, 0, 0, 0, 0, 0] @
      [0, 0, 0, 0, 0, 0, 0, 0, 0, 0, 0, 0, 0, 0, 0, 0, 0, 0, 0] @
      [0, 0, 0, 0, 0, 62, 63, 62, 0, 63, 52, 53, 54, 55, 56, 57, 58, 59, 60] @
      [61, 0, 0, 0, 64, 0, 0, 0, 0, 1, 2, 3, 4, 5, 6, 7, 8, 9, 10] @
      [11, 12, 13, 14, 15, 16, 17, 18, 19, 20, 21, 22, 23, 24, 25, 0, 0, 0, 0] @
      [63, 0, 26, 27, 28, 29, 30, 31, 32, 33, 34, 35, 36, 37, 38, 39, 40, 41, 42] @
      [43, 44, 45, 46, 47, 48, 49, 50, 51, 0, 0, 0, 0, 0, 0, 0, 0, 0, 0] @
      [0, 0, 0, 0, 0, 0, 0, 0, 0, 0, 0, 0, 0, 0, 0, 0, 0, 0, 0] @
      [0, 0, 0, 0, 0, 0, 0, 0, 0, 0, 0, 0, 0, 0, 0, 0, 0, 0, 0] @
      [0, 0, 0, 0, 0, 0, 0, 0, 0, 0, 0, 0, 0, 0, 0, 0, 0, 0, 0] @
      [0, 0, 0, 0, 0, 0, 0, 0, 0, 0, 0, 0, 0, 0, 0, 0, 0, 0, 0] @
      [0, 0, 0, 0, 0, 0, 0, 0, 0, 0, 0, 0, 0, 0, 0, 0, 0, 0, 0] @
      [0, 0, 0, 0, 0, 0, 0, 0, 0, 0, 0, 0, 0, 0, 0, 0, 0, 0, 0] @
      [0, 0, 0, 0, 0, 0, 0, 0, 0]"

text \<open>
  \<open>#define BITVAL(x) (base64_decodes[(x)] & 63)\<close>. The argument is a \<open>char\<close> cast to
  \<open>size_t\<close>; the table is indexed here by the value of the byte. For bytes below
  \<open>0x80\<close> the two agree whether \<open>char\<close> is signed or not. For a byte from \<open>0x80\<close>
  on, which only the tail switch can pass to \<open>BITVAL\<close>, a build with signed \<open>char\<close>
  indexes outside the table; the definition follows the unsigned reading there, and no
  theorem below evaluates \<open>BITVAL\<close> at such a byte.
\<close>

definition BITVAL :: "byte \<Rightarrow> 32 word" where
  "BITVAL x = (base64_decodes ! unat x) AND 63"

text \<open>
  The first loop, under the comment "skip unknown data at end":
  \<open>while (base64_len && !base64_decodes[*(uint8_t *)encoded]) base64_len--;\<close>.
  The read cursor does not move.
\<close>

partial_function (option) skip_unknown_at_end :: "mem \<Rightarrow> int \<Rightarrow> int \<Rightarrow> int option" where
  "skip_unknown_at_end m encoded base64_len =
     (if base64_len \<noteq> 0 \<and> base64_decodes ! unat (m encoded) = 0
      then skip_unknown_at_end m encoded (base64_len - 1)
      else Some base64_len)"

declare skip_unknown_at_end.simps [code]

text \<open>
  The loop that occurs five times in the body of the main loop, under "skip unknown data":
  \<open>while (base64_len && !base64_decodes[*(uint8_t *)encoded]) { base64_len--; encoded++; }\<close>.
  It returns the new \<open>encoded\<close> and \<open>base64_len\<close>.
\<close>

partial_function (option) skip_unknown :: "mem \<Rightarrow> int \<Rightarrow> int \<Rightarrow> (int \<times> int) option" where
  "skip_unknown m encoded base64_len =
     (if base64_len \<noteq> 0 \<and> base64_decodes ! unat (m encoded) = 0
      then skip_unknown m (encoded + 1) (base64_len - 1)
      else Some (encoded, base64_len))"

declare skip_unknown.simps [code]

text \<open>The labels \<open>oops1\<close>, \<open>oops2\<close>, \<open>oops3\<close>: the store and the returned count.\<close>

definition oops1 :: "mem \<Rightarrow> int \<Rightarrow> int \<Rightarrow> byte \<Rightarrow> mem \<times> int" where
  "oops1 m target written tmp1 =
     (let m = m(target := ucast (BITVAL tmp1))
      in (m, written + 1))"

definition oops2 :: "mem \<Rightarrow> int \<Rightarrow> int \<Rightarrow> byte \<Rightarrow> byte \<Rightarrow> mem \<times> int" where
  "oops2 m target written tmp1 tmp2 =
     (let m = m(target := ucast (push_bit 2 (BITVAL tmp1) OR drop_bit 6 (BITVAL tmp2)));
          m = m(target + 1 := ucast (push_bit 4 (BITVAL tmp2)))
      in (m, written + 2))"

definition oops3 :: "mem \<Rightarrow> int \<Rightarrow> int \<Rightarrow> byte \<Rightarrow> byte \<Rightarrow> byte \<Rightarrow> mem \<times> int" where
  "oops3 m target written tmp1 tmp2 tmp3 =
     (let m = m(target := ucast (push_bit 2 (BITVAL tmp1) OR drop_bit 6 (BITVAL tmp2)));
          m = m(target + 1 := ucast (push_bit 4 (BITVAL tmp2) OR drop_bit 2 (BITVAL tmp3)));
          m = m(target + 2 := ucast (push_bit 6 (BITVAL tmp3)))
      in (m, written + 3))"

text \<open>
  The \<open>switch (base64_len)\<close> after the main loop ("the tail of the mis-encoded stream").
  The result is the store, \<open>target\<close>, \<open>encoded\<close> and \<open>written\<close>.
\<close>

definition decode_tail :: "mem \<Rightarrow> int \<Rightarrow> int \<Rightarrow> int \<Rightarrow> int \<Rightarrow> mem \<times> int \<times> int \<times> int" where
  "decode_tail m target encoded base64_len written =
     (if base64_len = 1 then
        (let tmp1 = m encoded;
             m = m(target := ucast (BITVAL tmp1))
         in (m, target + 1, encoded + 1, written + 1))
      else if base64_len = 2 then
        (let tmp1 = m encoded;
             tmp2 = m (encoded + 1);
             m = m(target := ucast (push_bit 2 (BITVAL tmp1) OR drop_bit 6 (BITVAL tmp2)));
             m = m(target + 1 := ucast (push_bit 4 (BITVAL tmp2)))
         in (m, target + 2, encoded + 2, written + 2))
      else if base64_len = 3 then
        (let tmp1 = m encoded;
             tmp2 = m (encoded + 1);
             tmp3 = m (encoded + 2);
             m = m(target := ucast (push_bit 2 (BITVAL tmp1) OR drop_bit 6 (BITVAL tmp2)));
             m = m(target + 1 := ucast (push_bit 4 (BITVAL tmp2) OR drop_bit 2 (BITVAL tmp3)));
             m = m(target + 2 := ucast (push_bit 6 (BITVAL tmp3)))
         in (m, target + 3, encoded + 3, written + 3))
      else (m, target, encoded, written))"

text \<open>
  The end of the normal path: the padding test on \<open>encoded[-1]\<close> and \<open>encoded[-2]\<close>,
  the terminating zero byte and the returned count.
\<close>

definition decode_finish :: "mem \<times> int \<times> int \<times> int \<Rightarrow> mem \<times> int" where
  "decode_finish s =
     (case s of (m, target, encoded, written) \<Rightarrow>
        if m (encoded - 1) = PAD then
          if m (encoded - 2) = PAD
          then (m(target - 2 := 0), written - 2)
          else (m(target - 1 := 0), written - 1)
        else (m(target := 0), written))"

text \<open>
  The main loop \<open>while (base64_len >= 4)\<close> together with what follows it. The early
  returns (\<open>return written\<close> and the three \<open>goto\<close>s) leave the function from inside the
  loop. The three output bytes of a group are written after its four characters are read.
\<close>

partial_function (option) decode_groups ::
  "mem \<Rightarrow> int \<Rightarrow> int \<Rightarrow> int \<Rightarrow> int \<Rightarrow> (mem \<times> int) option" where
  "decode_groups m target encoded base64_len written =
     (if base64_len \<ge> 4 then
        do {
          (encoded, base64_len) \<leftarrow> skip_unknown m encoded base64_len;
          if base64_len = 0 then Some (m, written)
          else do {
            let tmp1 = m encoded;
            (encoded, base64_len) \<leftarrow> skip_unknown m (encoded + 1) base64_len;
            if base64_len = 0 then Some (oops1 m target written tmp1)
            else do {
              let tmp2 = m encoded;
              (encoded, base64_len) \<leftarrow> skip_unknown m (encoded + 1) base64_len;
              if base64_len = 0 then Some (oops2 m target written tmp1 tmp2)
              else do {
                let tmp3 = m encoded;
                (encoded, base64_len) \<leftarrow> skip_unknown m (encoded + 1) base64_len;
                if base64_len = 0 then Some (oops3 m target written tmp1 tmp2 tmp3)
                else do {
                  let tmp4 = m encoded;
                  let encoded = encoded + 1;
                  let m = m(target := ucast (push_bit 2 (BITVAL tmp1) OR drop_bit 4 (BITVAL tmp2)));
                  let m = m(target + 1 := ucast (push_bit 4 (BITVAL tmp2) OR drop_bit 2 (BITVAL tmp3)));
                  let m = m(target + 2 := ucast (push_bit 6 (BITVAL tmp3) OR BITVAL tmp4));
                  (encoded, base64_len) \<leftarrow> skip_unknown m encoded (base64_len - 4);
                  decode_groups m (target + 3) encoded base64_len (written + 3)
                }
              }
            }
          }
        }
      else Some (decode_finish (decode_tail m target encoded base64_len written)))"

declare decode_groups.simps [code]

text \<open>
  \<open>fio_base64_decode\<close>. A null \<open>target\<close> (address 0) selects in-place decoding. The
  result is the store after the call and the returned count.
\<close>

definition fio_base64_decode :: "mem \<Rightarrow> int \<Rightarrow> int \<Rightarrow> int \<Rightarrow> (mem \<times> int) option" where
  "fio_base64_decode m target encoded base64_len =
     (let target = (if target = 0 then encoded else target)
      in if base64_len \<le> 0 then Some (m(target := 0), 0)
         else do {
           base64_len \<leftarrow> skip_unknown_at_end m encoded base64_len;
           decode_groups m target encoded base64_len 0
         })"

section \<open>Observing a call\<close>

text \<open>
  \<open>encode_view\<close> and \<open>decode_view\<close> run a call and show the returned value together with
  the \<open>n\<close> bytes found at address \<open>p\<close> afterwards.
\<close>

definition view :: "int \<Rightarrow> nat \<Rightarrow> (mem \<times> int) option \<Rightarrow> (int \<times> byte list) option" where
  "view p n r = (case r of None \<Rightarrow> None | Some (m, ret) \<Rightarrow> Some (ret, load m p n))"

text \<open>Encoding the \<open>len\<close> bytes at \<open>data\<close> into \<open>text\<close>, then decoding that text into \<open>out\<close>.\<close>

definition encode_then_decode ::
  "byte list \<Rightarrow> mem \<Rightarrow> int \<Rightarrow> int \<Rightarrow> int \<Rightarrow> int \<Rightarrow> (mem \<times> int) option" where
  "encode_then_decode base64_encodes m out text data len =
     (case fio_base64_encode_internal m text data len base64_encodes of
        None \<Rightarrow> None
      | Some (m, n) \<Rightarrow> fio_base64_decode m out text n)"

text \<open>A store filled with \<open>0xFF\<close>, so that every byte a call writes as zero is visible.\<close>

definition blank :: mem where
  "blank = (\<lambda>_. 0xFF)"

section \<open>Definitions used in the statements and proofs\<close>

text \<open>
  The \<open>while (groups)\<close> loop counted on a natural number. It is total, and
  \<open>encode_groups\<close> returns its result whenever \<open>0 \<le> groups < 2^31\<close> (lemma
  \<open>encode_groups_eq\<close>).
\<close>

fun encode_groups_nat :: "byte list \<Rightarrow> nat \<Rightarrow> mem \<Rightarrow> int \<Rightarrow> int \<Rightarrow> mem" where
  "encode_groups_nat be 0 m writer reader = m"
| "encode_groups_nat be (Suc n) m writer reader =
     encode_groups_nat be n (encode_group be m writer reader) (writer - 4) (reader - 3)"

text \<open>The number of \<open>=\<close> characters at the end of a text.\<close>

definition trailing_pad :: "byte list \<Rightarrow> nat" where
  "trailing_pad xs = length (takeWhile (\<lambda>c. c = PAD) (rev xs))"

text \<open>
  The encoding as the specification words it: each full group of three bytes gives the four
  symbols \<open>byte0>>2\<close>, \<open>(byte0&3)<<4 | byte1>>4\<close>, \<open>(byte1&15)<<2 | byte2>>6\<close>,
  \<open>byte2&63\<close>; a last group of one byte gives two symbols and \<open>==\<close>, a last group of
  two bytes gives three symbols and \<open>=\<close>.
\<close>

definition spec_group :: "byte list \<Rightarrow> byte \<Rightarrow> byte \<Rightarrow> byte \<Rightarrow> byte list" where
  "spec_group be b0 b1 b2 =
     [be ! unat (drop_bit 2 b0),
      be ! unat (push_bit 4 (b0 AND 3) OR drop_bit 4 b1),
      be ! unat (push_bit 2 (b1 AND 15) OR drop_bit 6 b2),
      be ! unat (b2 AND 63)]"

fun spec_encode :: "byte list \<Rightarrow> byte list \<Rightarrow> byte list" where
  "spec_encode be (b0 # b1 # b2 # bs) = spec_group be b0 b1 b2 @ spec_encode be bs"
| "spec_encode be [b0, b1] =
     [be ! unat (drop_bit 2 b0),
      be ! unat (push_bit 4 (b0 AND 3) OR drop_bit 4 b1),
      be ! unat (push_bit 2 (b1 AND 15)),
      PAD]"
| "spec_encode be [b0] =
     [be ! unat (drop_bit 2 b0), be ! unat (push_bit 4 (b0 AND 3)), PAD, PAD]"
| "spec_encode be [] = []"

section \<open>The encoder loop\<close>

lemma int32_id: "- 2147483648 \<le> x \<Longrightarrow> x < 2147483648 \<Longrightarrow> int32 x = x"
  by (simp add: int32_def)

lemma encode_groups_eq:
  "int n < 2147483648 \<Longrightarrow>
     encode_groups be m w r (int n) = Some (encode_groups_nat be n m w r)"
proof (induction n arbitrary: m w r)
  case 0
  show ?case by (subst encode_groups.simps) simp
next
  case (Suc n)
  have "int32 (int (Suc n) - 1) = int n"
    using Suc.prems by (subst int32_id) simp_all
  then have "encode_groups be m w r (int (Suc n)) =
        encode_groups be (encode_group be m w r) (w - 4) (r - 3) (int n)"
    by (subst encode_groups.simps) simp
  then show ?case using Suc by simp
qed

lemma encode_group_frame:
  "a < w - 3 \<or> w < a \<Longrightarrow> encode_group be m w r a = m a"
  by (auto simp: encode_group_def Let_def)

lemma encode_groups_nat_frame:
  "a < w - 4 * int n + 1 \<or> w < a \<Longrightarrow> encode_groups_nat be n m w r a = m a"
proof (induction n arbitrary: m w r)
  case 0
  show ?case by simp
next
  case (Suc n)
  have "encode_groups_nat be n (encode_group be m w r) (w - 4) (r - 3) a =
        encode_group be m w r a"
    using Suc.prems by (intro Suc.IH) auto
  also have "\<dots> = m a"
    using Suc.prems by (intro encode_group_frame) auto
  finally show ?case by simp
qed

lemma encode_group_top: "encode_group be m w r w = be ! unat (m r AND 63)"
  by (simp add: encode_group_def Let_def)

lemma encode_groups_nat_top:
  "encode_groups_nat be (Suc n) m w r w = be ! unat (m r AND 63)"
  by (simp add: encode_groups_nat_frame encode_group_top)

lemma sdiv3_nonneg: "0 \<le> (k::int) \<Longrightarrow> k sdiv 3 = k div 3"
  by (cases "k = 0") (simp_all add: signed_divide_int_def)

lemma idx_and63: "unat ((x::byte) AND 63) < 64"
proof -
  have "unat (x AND 63) \<le> unat (63 :: byte)"
    by (rule word_and_le1 [THEN word_le_nat_alt [THEN iffD1]])
  then show ?thesis by simp
qed

lemma idx_shift4: "unat (push_bit 4 ((x::byte) AND 3)) < 64"
proof -
  have "unat (x AND 3) \<le> unat (3 :: byte)"
    by (rule word_and_le1 [THEN word_le_nat_alt [THEN iffD1]])
  then have "unat (x AND 3) \<le> 3" by simp
  moreover have "unat (push_bit 4 (x AND 3)) = (unat (x AND 3) * 16) mod 256"
    by (simp add: push_bit_eq_mult unat_word_ariths)
  ultimately show ?thesis by simp
qed

lemma idx_shift2: "unat (push_bit 2 ((x::byte) AND 15)) < 64"
proof -
  have "unat (x AND 15) \<le> unat (15 :: byte)"
    by (rule word_and_le1 [THEN word_le_nat_alt [THEN iffD1]])
  then have "unat (x AND 15) \<le> 15" by simp
  moreover have "unat (push_bit 2 (x AND 15)) = (unat (x AND 15) * 4) mod 256"
    by (simp add: push_bit_eq_mult unat_word_ariths)
  ultimately show ?thesis by simp
qed

lemma no_pad_original: "i < 64 \<Longrightarrow> base64_encodes_original ! i \<noteq> PAD"
proof -
  have "list_all (\<lambda>c. c \<noteq> PAD) (take 64 base64_encodes_original)"
    by code_simp
  moreover assume "i < 64"
  moreover have "length base64_encodes_original = 65" by code_simp
  ultimately show ?thesis
    by (simp add: list_all_length)
qed

lemma no_pad_url: "i < 64 \<Longrightarrow> base64_encodes_url ! i \<noteq> PAD"
proof -
  have "list_all (\<lambda>c. c \<noteq> PAD) (take 64 base64_encodes_url)"
    by code_simp
  moreover assume "i < 64"
  moreover have "length base64_encodes_url = 65" by code_simp
  ultimately show ?thesis
    by (simp add: list_all_length)
qed

lemma trailing_pad_eq:
  assumes "k < length xs"
    and "\<And>j. j < k \<Longrightarrow> xs ! (length xs - 1 - j) = PAD"
    and "xs ! (length xs - 1 - k) \<noteq> PAD"
  shows "trailing_pad xs = k"
proof -
  have "takeWhile (\<lambda>c. c = PAD) (rev xs) = take k (rev xs)"
  proof (rule takeWhile_eq_take_P_nth)
    fix i assume "i < k" "i < length (rev xs)"
    then show "rev xs ! i = PAD" using assms(2)[of i] by (simp add: rev_nth)
  next
    assume "k < length (rev xs)"
    then show "rev xs ! k \<noteq> PAD" using assms(3) by (simp add: rev_nth)
  qed
  then show ?thesis using assms(1) by (simp add: trailing_pad_def)
qed

lemma load_nth: "i < n \<Longrightarrow> load m p n ! i = m (p + int i)"
  by (simp add: load_def)

lemma length_load: "length (load m p n) = n"
  by (simp add: load_def)

text \<open>
  The call for an input of \<open>3 * g + z\<close> bytes, \<open>z\<close> below 3 and the length within
  \<open>int\<close>: the loop runs \<open>g\<close> times, after the tail for \<open>z\<close>, and the returned
  \<open>target_size\<close> is \<open>int32 (4 * (g + 1))\<close>, or \<open>int32 (4 * g)\<close> when \<open>z = 0\<close>.
\<close>

lemma encode_arith:
  assumes "0 \<le> z" "z < 3" "3 * int g + z < 2147483648"
  shows "(3 * int g + z) sdiv 3 = int g"
    and "int32 (3 * int g + z - int32 (int g * 3)) = z"
    and "int32 (int g + 1) = int g + 1"
    and "int32 (int g + 0) = int g"
proof -
  have "(3 * int g + z) sdiv 3 = (3 * int g + z) div 3"
    using assms by (intro sdiv3_nonneg) simp
  then show "(3 * int g + z) sdiv 3 = int g" using assms by simp
  have "int32 (int g * 3) = int g * 3"
    using assms by (intro int32_id) simp_all
  moreover have "int32 z = z"
    using assms by (intro int32_id) simp_all
  ultimately show "int32 (3 * int g + z - int32 (int g * 3)) = z" by simp
  show "int32 (int g + 1) = int g + 1"
    using assms by (intro int32_id) simp_all
  show "int32 (int g + 0) = int g"
    using assms by (subst int32_id) simp_all
qed

lemma encode_internal_mod0_wrap:
  assumes "3 * int g < 2147483648"
  shows "fio_base64_encode_internal m target data (3 * int g) be =
     Some (encode_groups_nat be g (m(target + int32 (int g * 4) := 0))
             (target + int32 (int g * 4) - 1 ) (data + 3 * int g - 1), int32 (int g * 4))"
proof -
  have n: "int g < 2147483648" using assms by simp
  show ?thesis
    using encode_arith [of 0 g] assms
    by (simp add: fio_base64_encode_internal_def encode_groups_eq [OF n] Let_def)
qed

lemma encode_internal_mod1_wrap:
  assumes "3 * int g + 1 < 2147483648"
  shows "fio_base64_encode_internal m target data (3 * int g + 1) be =
     Some (encode_groups_nat be g
             (encode_tail1 be (m(target + int32 ((int g + 1) * 4) - 1 + 1 := 0))
                (target + int32 ((int g + 1) * 4) - 1) (data + (3 * int g + 1) - 1))
             (target + int32 ((int g + 1) * 4) - 1 - 4) (data + (3 * int g + 1) - 1 - 1),
           int32 ((int g + 1) * 4))"
proof -
  have n: "int g < 2147483648" using assms by simp
  show ?thesis
    using encode_arith [of 1 g] assms
    by (simp add: fio_base64_encode_internal_def encode_groups_eq [OF n] Let_def)
qed

lemma encode_internal_mod2_wrap:
  assumes "3 * int g + 2 < 2147483648"
  shows "fio_base64_encode_internal m target data (3 * int g + 2) be =
     Some (encode_groups_nat be g
             (encode_tail2 be (m(target + int32 ((int g + 1) * 4) - 1 + 1 := 0))
                (target + int32 ((int g + 1) * 4) - 1) (data + (3 * int g + 2) - 1))
             (target + int32 ((int g + 1) * 4) - 1 - 4) (data + (3 * int g + 2) - 1 - 2),
           int32 ((int g + 1) * 4))"
proof -
  have n: "int g < 2147483648" using assms by simp
  show ?thesis
    using encode_arith [of 2 g] assms
    by (simp add: fio_base64_encode_internal_def encode_groups_eq [OF n] Let_def)
qed

text \<open>The same without overflow: at most 1610612733 bytes.\<close>

lemma encode_internal_mod0:
  assumes "3 * int g \<le> 1610612733"
  shows "fio_base64_encode_internal m target data (3 * int g) be =
     Some (encode_groups_nat be g (m(target + 4 * int g := 0))
             (target + 4 * int g - 1) (data + 3 * int g - 1), 4 * int g)"
proof -
  have "int32 (int g * 4) = 4 * int g"
    using assms by (subst int32_id) simp_all
  then show ?thesis
    using encode_internal_mod0_wrap [of g m target data be] assms by simp
qed

lemma encode_internal_mod1:
  assumes "3 * int g + 1 \<le> 1610612733"
  shows "fio_base64_encode_internal m target data (3 * int g + 1) be =
     Some (encode_groups_nat be g
             (encode_tail1 be (m(target + 4 * int g + 4 := 0)) (target + 4 * int g + 3)
                (data + 3 * int g))
             (target + 4 * int g - 1) (data + 3 * int g - 1), 4 * int g + 4)"
proof -
  have "int32 ((int g + 1) * 4) = 4 * int g + 4"
    using assms by (subst int32_id) simp_all
  then show ?thesis
    using encode_internal_mod1_wrap [of g m target data be] assms
    by (simp add: algebra_simps)
qed

lemma encode_internal_mod2:
  assumes "3 * int g + 2 \<le> 1610612733"
  shows "fio_base64_encode_internal m target data (3 * int g + 2) be =
     Some (encode_groups_nat be g
             (encode_tail2 be (m(target + 4 * int g + 4 := 0)) (target + 4 * int g + 3)
                (data + 3 * int g + 1))
             (target + 4 * int g - 1) (data + 3 * int g - 1), 4 * int g + 4)"
proof -
  have "int32 ((int g + 1) * 4) = 4 * int g + 4"
    using assms by (subst int32_id) simp_all
  then show ?thesis
    using encode_internal_mod2_wrap [of g m target data be] assms
    by (simp add: algebra_simps)
qed

lemma split_len:
  assumes "0 \<le> (len::int)"
  obtains g where "len = 3 * int g" "len mod 3 = 0"
  | g where "len = 3 * int g + 1" "len mod 3 = 1"
  | g where "len = 3 * int g + 2" "len mod 3 = 2"
proof -
  have "0 \<le> len div 3"
    using assms by (simp add: pos_imp_zdiv_nonneg_iff)
  then have eq: "len = 3 * int (nat (len div 3)) + len mod 3"
    by simp
  have "len mod 3 = 0 \<or> len mod 3 = 1 \<or> len mod 3 = 2"
    by presburger
  then consider "len mod 3 = 0" | "len mod 3 = 1" | "len mod 3 = 2"
    by blast
  then show ?thesis
  proof cases
    case 1
    with eq have e: "len = 3 * int (nat (len div 3))" by simp
    show ?thesis by (rule that(1) [OF e 1])
  next
    case 2
    with eq have e: "len = 3 * int (nat (len div 3)) + 1" by simp
    show ?thesis by (rule that(2) [OF e 2])
  next
    case 3
    with eq have e: "len = 3 * int (nat (len div 3)) + 2" by simp
    show ?thesis by (rule that(3) [OF e 3])
  qed
qed

lemma encode_tail1_pad:
  assumes nopad: "\<And>i. i < 64 \<Longrightarrow> be ! i \<noteq> PAD"
  shows "encode_tail1 be m (q + 3) r (q + 3) = PAD"
    and "encode_tail1 be m (q + 3) r (q + 2) = PAD"
    and "encode_tail1 be m (q + 3) r (q + 1) \<noteq> PAD"
proof -
  show "encode_tail1 be m (q + 3) r (q + 3) = PAD"
    by (simp add: encode_tail1_def Let_def)
  show "encode_tail1 be m (q + 3) r (q + 2) = PAD"
    by (simp add: encode_tail1_def Let_def)
  have "encode_tail1 be m (q + 3) r (q + 1) = be ! unat (push_bit 4 (m r AND 3))"
    by (simp add: encode_tail1_def Let_def)
  moreover have "be ! unat (push_bit 4 (m r AND 3)) \<noteq> PAD"
    by (rule nopad [OF idx_shift4])
  ultimately show "encode_tail1 be m (q + 3) r (q + 1) \<noteq> PAD"
    by metis
qed

lemma encode_tail2_pad:
  assumes nopad: "\<And>i. i < 64 \<Longrightarrow> be ! i \<noteq> PAD"
  shows "encode_tail2 be m (q + 3) r (q + 3) = PAD"
    and "encode_tail2 be m (q + 3) r (q + 2) \<noteq> PAD"
proof -
  show "encode_tail2 be m (q + 3) r (q + 3) = PAD"
    by (simp add: encode_tail2_def Let_def)
  have "encode_tail2 be m (q + 3) r (q + 2) = be ! unat (push_bit 2 (m r AND 15))"
    by (simp add: encode_tail2_def Let_def)
  moreover have "be ! unat (push_bit 2 (m r AND 15)) \<noteq> PAD"
    by (rule nopad [OF idx_shift2])
  ultimately show "encode_tail2 be m (q + 3) r (q + 2) \<noteq> PAD"
    by metis
qed

lemma trailing_pad_mod0:
  assumes nopad: "\<And>i. i < 64 \<Longrightarrow> be ! i \<noteq> PAD"
  shows "trailing_pad (load (encode_groups_nat be g m (p + 4 * int g - 1) r) p (4 * g)) = 0"
proof (cases g)
  case 0
  then show ?thesis by (simp add: trailing_pad_def load_def)
next
  case (Suc k)
  let ?m' = "encode_groups_nat be g m (p + 4 * int g - 1) r"
  have "?m' (p + int (4 * g - 1)) = be ! unat (m r AND 63)"
    using encode_groups_nat_top [of be k m "p + 4 * int g - 1" r] Suc
    by (simp add: algebra_simps)
  then have "?m' (p + int (4 * g - 1)) \<noteq> PAD"
    using nopad idx_and63 by simp
  then show ?thesis
    using Suc by (intro trailing_pad_eq) (simp_all add: length_load load_nth)
qed

lemma trailing_pad_mod1:
  assumes nopad: "\<And>i. i < 64 \<Longrightarrow> be ! i \<noteq> PAD"
  shows "trailing_pad (load (encode_groups_nat be g
            (encode_tail1 be m (p + 4 * int g + 3) r) (p + 4 * int g - 1) r') p (4 * g + 4)) = 2"
proof -
  let ?t = "encode_tail1 be m (p + 4 * int g + 3) r"
  let ?m' = "encode_groups_nat be g ?t (p + 4 * int g - 1) r'"
  have fr: "?m' (p + 4 * int g + i) = ?t (p + 4 * int g + i)" if "0 \<le> i" for i
    using that by (intro encode_groups_nat_frame) simp
  have a: "?m' (p + 4 * int g + 3) = PAD"
    using fr [of 3] encode_tail1_pad(1) [OF nopad, of m "p + 4 * int g" r] by simp
  have b: "?m' (p + 4 * int g + 2) = PAD"
    using fr [of 2] encode_tail1_pad(2) [OF nopad, of m "p + 4 * int g" r] by simp
  have c: "?m' (p + 4 * int g + 1) \<noteq> PAD"
    using fr [of 1] encode_tail1_pad(3) [OF nopad, of m "p + 4 * int g" r] by simp
  show ?thesis
  proof (rule trailing_pad_eq)
    show "2 < length (load ?m' p (4 * g + 4))" by (simp add: length_load)
  next
    fix j :: nat assume "j < 2"
    then have "j = 0 \<or> j = 1" by auto
    then show "load ?m' p (4 * g + 4) ! (length (load ?m' p (4 * g + 4)) - 1 - j) = PAD"
      using a b by (auto simp: length_load load_nth algebra_simps)
  next
    show "load ?m' p (4 * g + 4) ! (length (load ?m' p (4 * g + 4)) - 1 - 2) \<noteq> PAD"
      using c by (simp add: length_load load_nth algebra_simps)
  qed
qed

lemma trailing_pad_mod2:
  assumes nopad: "\<And>i. i < 64 \<Longrightarrow> be ! i \<noteq> PAD"
  shows "trailing_pad (load (encode_groups_nat be g
            (encode_tail2 be m (p + 4 * int g + 3) r) (p + 4 * int g - 1) r') p (4 * g + 4)) = 1"
proof -
  let ?t = "encode_tail2 be m (p + 4 * int g + 3) r"
  let ?m' = "encode_groups_nat be g ?t (p + 4 * int g - 1) r'"
  have fr: "?m' (p + 4 * int g + i) = ?t (p + 4 * int g + i)" if "0 \<le> i" for i
    using that by (intro encode_groups_nat_frame) simp
  have a: "?m' (p + 4 * int g + 3) = PAD"
    using fr [of 3] encode_tail2_pad(1) [OF nopad, of m "p + 4 * int g" r] by simp
  have c: "?m' (p + 4 * int g + 2) \<noteq> PAD"
    using fr [of 2] encode_tail2_pad(2) [OF nopad, of m "p + 4 * int g" r] by simp
  show ?thesis
  proof (rule trailing_pad_eq)
    show "1 < length (load ?m' p (4 * g + 4))" by (simp add: length_load)
  next
    fix j :: nat assume "j < 1"
    then show "load ?m' p (4 * g + 4) ! (length (load ?m' p (4 * g + 4)) - 1 - j) = PAD"
      using a by (simp add: length_load load_nth algebra_simps)
  next
    show "load ?m' p (4 * g + 4) ! (length (load ?m' p (4 * g + 4)) - 1 - 1) \<noteq> PAD"
      using c by (simp add: length_load load_nth algebra_simps)
  qed
qed




lemma encode_tail1_frame:
  "a < q \<or> q + 3 < a \<Longrightarrow> encode_tail1 be m (q + 3) r a = m a"
  by (auto simp: encode_tail1_def Let_def)

lemma encode_tail2_frame:
  "a < q \<or> q + 3 < a \<Longrightarrow> encode_tail2 be m (q + 3) r a = m a"
  by (auto simp: encode_tail2_def Let_def)



section \<open>The encoder against the specified text\<close>

lemma mask2: "drop_bit 2 (b::byte) AND 63 = drop_bit 2 b"
proof -
  have "drop_bit 2 b AND mask 6 = drop_bit 2 b"
    by (rule bit_word_eqI) (auto simp: bit_simps dest: bit_imp_le_length)
  then show ?thesis by (simp add: mask_eq_exp_minus_1)
qed

lemma mask4: "drop_bit 4 (b::byte) AND 15 = drop_bit 4 b"
proof -
  have "drop_bit 4 b AND mask 4 = drop_bit 4 b"
    by (rule bit_word_eqI) (auto simp: bit_simps dest: bit_imp_le_length)
  then show ?thesis by (simp add: mask_eq_exp_minus_1)
qed

lemma mask6: "drop_bit 6 (b::byte) AND 3 = drop_bit 6 b"
proof -
  have "drop_bit 6 b AND mask 2 = drop_bit 6 b"
    by (rule bit_word_eqI) (auto simp: bit_simps dest: bit_imp_le_length)
  then show ?thesis by (simp add: mask_eq_exp_minus_1)
qed

lemma load_Suc: "load m p (Suc n) = m p # load m (p + 1) n"
proof -
  have "[0..<Suc n] = 0 # map Suc [0..<n]"
    by (simp add: upt_conv_Cons map_Suc_upt del: upt_Suc)
  then show ?thesis
    by (simp add: load_def comp_def algebra_simps del: upt_Suc)
qed

lemma load_4: "load m p 4 = [m p, m (p + 1), m (p + 2), m (p + 3)]"
  by (simp add: load_def upt_rec)

lemma load_add: "load m p (a + b) = load m p a @ load m (p + int a) b"
proof (induction a arbitrary: p)
  case 0
  show ?case by (simp add: load_def)
next
  case (Suc a)
  have "load m p (Suc a + b) = m p # load m (p + 1) (a + b)"
    by (simp add: load_Suc)
  also have "\<dots> = m p # (load m (p + 1) a @ load m (p + 1 + int a) b)"
    by (simp only: Suc.IH)
  also have "\<dots> = load m p (Suc a) @ load m (p + int (Suc a)) b"
    by (simp add: load_Suc algebra_simps)
  finally show ?case .
qed

lemma encode_group_load:
  "load (encode_group be m (q + 3) r) q 4 = spec_group be (m (r - 2)) (m (r - 1)) (m r)"
  by (simp add: load_4 encode_group_def spec_group_def Let_def mask2 mask4 mask6)

lemma encode_tail1_load:
  "load (encode_tail1 be m (q + 3) r) q 4 = spec_encode be [m r]"
  by (simp add: load_4 encode_tail1_def Let_def mask2)

lemma encode_tail2_load:
  "load (encode_tail2 be m (q + 3) r) q 4 = spec_encode be [m (r - 1), m r]"
  by (simp add: load_4 encode_tail2_def Let_def mask2 mask4)


lemma load_cong: "(\<And>i. i < n \<Longrightarrow> f (p + int i) = g (q + int i)) \<Longrightarrow> load f p n = load g q n"
  by (simp add: load_def)

lemma encode_groups_nat_content:
  assumes "T = D \<or> T + 4 * int k \<le> D \<or> D + 3 * int k \<le> T" and "i < k"
  shows "load (encode_groups_nat be k m (T + 4 * int k - 1) (D + 3 * int k - 1)) (T + 4 * int i) 4
       = spec_group be (m (D + 3 * int i)) (m (D + 3 * int i + 1)) (m (D + 3 * int i + 2))"
  using assms
proof (induction k arbitrary: m)
  case 0
  then show ?case by simp
next
  case (Suc k)
  let ?n = "encode_group be m (T + 4 * int k + 3) (D + 3 * int k + 2)"
  let ?res = "encode_groups_nat be k ?n (T + 4 * int k - 1) (D + 3 * int k - 1)"
  have step: "encode_groups_nat be (Suc k) m (T + 4 * int (Suc k) - 1) (D + 3 * int (Suc k) - 1) = ?res"
    by (simp add: algebra_simps)
  have keep: "?n (D + j) = m (D + j)" if "0 \<le> j" "j < 3 * int k" for j
    using that Suc.prems(1) by (intro encode_group_frame) auto
  show ?case
  proof (cases "i < k")
    case True
    have "load ?res (T + 4 * int i) 4
        = spec_group be (?n (D + 3 * int i)) (?n (D + 3 * int i + 1)) (?n (D + 3 * int i + 2))"
      using Suc.prems(1) True by (intro Suc.IH) auto
    moreover have "?n (D + 3 * int i) = m (D + 3 * int i)"
      using True by (intro keep) simp_all
    moreover have "?n (D + 3 * int i + 1) = m (D + 3 * int i + 1)"
      using True keep [of "3 * int i + 1"] by (simp add: add.assoc)
    moreover have "?n (D + 3 * int i + 2) = m (D + 3 * int i + 2)"
      using True keep [of "3 * int i + 2"] by (simp add: add.assoc)
    ultimately show ?thesis by (simp only: step)
  next
    case False
    then have ik: "i = k" using Suc.prems(2) by simp
    have "load ?res (T + 4 * int k) 4 = load ?n (T + 4 * int k) 4"
    proof (rule load_cong)
      fix j :: nat assume "j < 4"
      show "?res (T + 4 * int k + int j) = ?n (T + 4 * int k + int j)"
        by (intro encode_groups_nat_frame) simp
    qed
    also have "\<dots> = spec_group be (m (D + 3 * int k + 2 - 2)) (m (D + 3 * int k + 2 - 1))
        (m (D + 3 * int k + 2))"
      by (rule encode_group_load)
    finally have "load ?res (T + 4 * int k) 4
        = spec_group be (m (D + 3 * int k + 2 - 2)) (m (D + 3 * int k + 2 - 1)) (m (D + 3 * int k + 2))" .
    moreover have "D + 3 * int k + 2 - 2 = D + 3 * int k" "D + 3 * int k + 2 - 1 = D + 3 * int k + 1"
      by simp_all
    ultimately have "load ?res (T + 4 * int k) 4
        = spec_group be (m (D + 3 * int k)) (m (D + 3 * int k + 1)) (m (D + 3 * int k + 2))"
      by (simp only:)
    then show ?thesis by (simp only: step ik)
  qed
qed

lemma load_groups_spec:
  assumes "\<And>i. i < g \<Longrightarrow> load f (T + 4 * int i) 4
             = spec_group be (d (D + 3 * int i)) (d (D + 3 * int i + 1)) (d (D + 3 * int i + 2))"
    and "load f (T + 4 * int g) t = spec_encode be (load d (D + 3 * int g) z)"
  shows "load f T (4 * g + t) = spec_encode be (load d D (3 * g + z))"
  using assms
proof (induction g arbitrary: T D)
  case 0
  then show ?case by simp
next
  case (Suc g)
  have first: "load f T 4 = spec_group be (d D) (d (D + 1)) (d (D + 2))"
    using Suc.prems(1) [of 0] by simp
  have rest: "load f (T + 4) (4 * g + t) = spec_encode be (load d (D + 3) (3 * g + z))"
  proof (rule Suc.IH)
    fix i assume "i < g"
    then show "load f (T + 4 + 4 * int i) 4
       = spec_group be (d (D + 3 + 3 * int i)) (d (D + 3 + 3 * int i + 1)) (d (D + 3 + 3 * int i + 2))"
      using Suc.prems(1) [of "Suc i"] by (simp add: algebra_simps)
  next
    show "load f (T + 4 + 4 * int g) t = spec_encode be (load d (D + 3 + 3 * int g) z)"
      using Suc.prems(2) by (simp add: algebra_simps)
  qed
  have "4 * Suc g + t = 4 + (4 * g + t)"
    by simp
  then have "load f T (4 * Suc g + t) = load f T (4 + (4 * g + t))"
    by (simp only:)
  also have "\<dots> = load f T 4 @ load f (T + 4) (4 * g + t)"
    by (simp only: load_add) simp
  also have "\<dots> = spec_group be (d D) (d (D + 1)) (d (D + 2))
       @ spec_encode be (load d (D + 3) (3 * g + z))"
    by (simp only: first rest)
  also have "\<dots> = spec_encode be (d D # d (D + 1) # d (D + 2) # load d (D + 3) (3 * g + z))"
    by simp
  also have "d D # d (D + 1) # d (D + 2) # load d (D + 3) (3 * g + z)
       = load d D (Suc (Suc (Suc (3 * g + z))))"
    by (simp add: load_Suc add.assoc)
  also have "Suc (Suc (Suc (3 * g + z))) = 3 * Suc g + z"
    by simp
  finally show ?case .
qed


lemma load_0: "load m p 0 = []"
  by (simp add: load_def)

lemma load_1: "load m p 1 = [m p]"
  by (simp add: load_def)

lemma load_2: "load m p 2 = [m p, m (p + 1)]"
  by (simp add: load_def upt_rec)

text \<open>
  The groups of the loop, read from a store \<open>t\<close> that still holds the input bytes of the
  full groups, followed by the four characters of the tail.
\<close>

lemma encode_groups_nat_spec:
  assumes place: "T = D \<or> T + 4 * int g \<le> D \<or> D + 3 * int g \<le> T"
    and keep: "\<And>j. 0 \<le> j \<Longrightarrow> j < 3 * int g \<Longrightarrow> t (D + j) = m (D + j)"
    and tail: "load t (T + 4 * int g) c = spec_encode be (load m (D + 3 * int g) z)"
    and c: "c \<le> 4"
  shows "load (encode_groups_nat be g t (T + 4 * int g - 1) (D + 3 * int g - 1)) T (4 * g + c)
       = spec_encode be (load m D (3 * g + z))"
proof (rule load_groups_spec)
  let ?res = "encode_groups_nat be g t (T + 4 * int g - 1) (D + 3 * int g - 1)"
  fix i assume i: "i < g"
  have "load ?res (T + 4 * int i) 4
      = spec_group be (t (D + 3 * int i)) (t (D + 3 * int i + 1)) (t (D + 3 * int i + 2))"
    using place i by (rule encode_groups_nat_content)
  moreover have "t (D + 3 * int i) = m (D + 3 * int i)"
    using i by (intro keep) simp_all
  moreover have "t (D + 3 * int i + 1) = m (D + 3 * int i + 1)"
    using i keep [of "3 * int i + 1"] by (simp add: add.assoc)
  moreover have "t (D + 3 * int i + 2) = m (D + 3 * int i + 2)"
    using i keep [of "3 * int i + 2"] by (simp add: add.assoc)
  ultimately show "load ?res (T + 4 * int i) 4
      = spec_group be (m (D + 3 * int i)) (m (D + 3 * int i + 1)) (m (D + 3 * int i + 2))"
    by (simp only:)
next
  let ?res = "encode_groups_nat be g t (T + 4 * int g - 1) (D + 3 * int g - 1)"
  have "load ?res (T + 4 * int g) c = load t (T + 4 * int g) c"
  proof (rule load_cong)
    fix j :: nat assume "j < c"
    show "?res (T + 4 * int g + int j) = t (T + 4 * int g + int j)"
      by (intro encode_groups_nat_frame) simp
  qed
  then show "load ?res (T + 4 * int g) c = spec_encode be (load m (D + 3 * int g) z)"
    by (simp only: tail)
qed

lemma encode_internal_spec:
  assumes "0 \<le> len" "len \<le> 1610612733"
    and place: "target = data \<or> target + 4 * ((len + 2) div 3) < data \<or> data + len \<le> target"
  shows "\<exists>m'. fio_base64_encode_internal m target data len be
                 = Some (m', 4 * ((len + 2) div 3))
              \<and> load m' target (nat (4 * ((len + 2) div 3))) = spec_encode be (load m data (nat len))"
proof -
  from assms(1) show ?thesis
  proof (cases len rule: split_len)
    case (1 g)
    have sz: "4 * ((len + 2) div 3) = 4 * int g" using 1 by simp
    have bound: "3 * int g \<le> 1610612733" using assms(2) 1 by simp
    have pl: "target = data \<or> target + 4 * int g < data \<or> data + 3 * int g \<le> target"
      using place sz 1(1) by simp
    let ?z = "m(target + 4 * int g := 0)"
    have "load (encode_groups_nat be g ?z (target + 4 * int g - 1) (data + 3 * int g - 1))
             target (4 * g + 0) = spec_encode be (load m data (3 * g + 0))"
    proof (rule encode_groups_nat_spec)
      show "target = data \<or> target + 4 * int g \<le> data \<or> data + 3 * int g \<le> target"
        using pl by auto
      show "?z (data + j) = m (data + j)" if "0 \<le> j" "j < 3 * int g" for j
        using that pl by auto
      show "load ?z (target + 4 * int g) 0 = spec_encode be (load m (data + 3 * int g) 0)"
        by (simp add: load_0)
    qed simp
    moreover have "nat (4 * int g) = 4 * g + 0" "nat (3 * int g) = 3 * g + 0"
      by simp_all
    ultimately show ?thesis
      unfolding sz unfolding 1(1) encode_internal_mod0 [OF bound] by simp
  next
    case (2 g)
    have sz: "4 * ((len + 2) div 3) = 4 * int g + 4" using 2 by simp
    have bound: "3 * int g + 1 \<le> 1610612733" using assms(2) 2 by simp
    have pl: "target = data \<or> target + 4 * int g + 4 < data \<or> data + 3 * int g + 1 \<le> target"
      using place sz 2(1) by (simp add: add.assoc)
    let ?z = "m(target + 4 * int g + 4 := 0)"
    let ?t = "encode_tail1 be ?z (target + 4 * int g + 3) (data + 3 * int g)"
    have "load (encode_groups_nat be g ?t (target + 4 * int g - 1) (data + 3 * int g - 1))
             target (4 * g + 4) = spec_encode be (load m data (3 * g + 1))"
    proof (rule encode_groups_nat_spec)
      show "target = data \<or> target + 4 * int g \<le> data \<or> data + 3 * int g \<le> target"
        using pl by auto
      show "?t (data + j) = m (data + j)" if "0 \<le> j" "j < 3 * int g" for j
      proof -
        have "?t (data + j) = ?z (data + j)"
          using that pl by (intro encode_tail1_frame) auto
        then show ?thesis using that pl by auto
      qed
      have "?z (data + 3 * int g) = m (data + 3 * int g)"
        using pl by auto
      moreover have "load ?t (target + 4 * int g) 4 = spec_encode be [?z (data + 3 * int g)]"
        by (rule encode_tail1_load)
      ultimately show "load ?t (target + 4 * int g) 4
          = spec_encode be (load m (data + 3 * int g) 1)"
        by (simp only: load_1)
    qed simp
    moreover have "nat (4 * int g + 4) = 4 * g + 4" "nat (3 * int g + 1) = 3 * g + 1"
      by simp_all
    ultimately show ?thesis
      unfolding sz unfolding 2(1) encode_internal_mod1 [OF bound] by simp
  next
    case (3 g)
    have sz: "4 * ((len + 2) div 3) = 4 * int g + 4" using 3 by simp
    have bound: "3 * int g + 2 \<le> 1610612733" using assms(2) 3 by simp
    have pl: "target = data \<or> target + 4 * int g + 4 < data \<or> data + 3 * int g + 2 \<le> target"
      using place sz 3(1) by (simp add: add.assoc)
    let ?z = "m(target + 4 * int g + 4 := 0)"
    let ?t = "encode_tail2 be ?z (target + 4 * int g + 3) (data + 3 * int g + 1)"
    have "load (encode_groups_nat be g ?t (target + 4 * int g - 1) (data + 3 * int g - 1))
             target (4 * g + 4) = spec_encode be (load m data (3 * g + 2))"
    proof (rule encode_groups_nat_spec)
      show "target = data \<or> target + 4 * int g \<le> data \<or> data + 3 * int g \<le> target"
        using pl by auto
      show "?t (data + j) = m (data + j)" if "0 \<le> j" "j < 3 * int g" for j
      proof -
        have "?t (data + j) = ?z (data + j)"
          using that pl by (intro encode_tail2_frame) auto
        then show ?thesis using that pl by auto
      qed
      have "?z (data + 3 * int g) = m (data + 3 * int g)"
        "?z (data + 3 * int g + 1) = m (data + 3 * int g + 1)"
        using pl by auto
      moreover have "load ?t (target + 4 * int g) 4
          = spec_encode be [?z (data + 3 * int g + 1 - 1), ?z (data + 3 * int g + 1)]"
        by (rule encode_tail2_load)
      moreover have "data + 3 * int g + 1 - 1 = data + 3 * int g"
        by simp
      ultimately show "load ?t (target + 4 * int g) 4
          = spec_encode be (load m (data + 3 * int g) 2)"
        by (simp only: load_2)
    qed simp
    moreover have "nat (4 * int g + 4) = 4 * g + 4" "nat (3 * int g + 2) = 3 * g + 2"
      by simp_all
    ultimately show ?thesis
      unfolding sz unfolding 3(1) encode_internal_mod2 [OF bound] by simp
  qed
qed

section \<open>Length and padding of the encoder's output\<close>

text \<open>
  Claim C7 (encode length and padding law, for every byte sequence). As stated it fails:
  for 1610612734 input bytes \<open>4 * ceil(len/3)\<close> is \<open>2^31\<close>, which the \<open>int\<close>
  \<open>target_size\<close> cannot hold, and the encoder returns \<open>-2147483648\<close>.
\<close>

theorem encode_length_overflow_counterexample:
  "map_option snd
     (fio_base64_encode_internal blank 8589934592 4294967296 1610612734 base64_encodes_original)
     = Some (- 2147483648)
   \<and> 4 * ((1610612734 + 2) div 3) = (2147483648 :: int)"
proof -
  have "fio_base64_encode_internal blank 8589934592 4294967296 (3 * int 536870911 + 1)
          base64_encodes_original
        = Some (encode_groups_nat base64_encodes_original 536870911
             (encode_tail1 base64_encodes_original
                (blank(8589934592 + int32 ((int 536870911 + 1) * 4) - 1 + 1 := 0))
                (8589934592 + int32 ((int 536870911 + 1) * 4) - 1)
                (4294967296 + (3 * int 536870911 + 1) - 1))
             (8589934592 + int32 ((int 536870911 + 1) * 4) - 1 - 4)
             (4294967296 + (3 * int 536870911 + 1) - 1 - 1),
           int32 ((int 536870911 + 1) * 4))"
    by (rule encode_internal_mod1_wrap) simp
  moreover have "3 * int 536870911 + 1 = 1610612734"
    by simp
  moreover have "int32 ((int 536870911 + 1) * 4) = - 2147483648"
    by (simp add: int32_def)
  ultimately show ?thesis by simp
qed

text \<open>
  Claim C7 as amended: for every byte sequence of at most 1610612733 bytes (so that
  \<open>4 * ceil(len/3)\<close> fits an \<open>int\<close>), every store and every placement of the buffers,
  with either alphabet, the encoder returns \<open>4 * ceil(len/3)\<close>, and the text of that many
  characters it leaves at \<open>target\<close> ends in no \<open>=\<close> when \<open>len mod 3 = 0\<close>, in
  exactly two when it is 1 and in exactly one when it is 2. When the output buffer is the
  input buffer, or does not overlap the input, that text is the specified encoding of the
  input bytes, character for character.
\<close>

theorem encode_length_and_padding:
  assumes "0 \<le> len" "len \<le> 1610612733"
    and "base64_encodes = base64_encodes_original \<or> base64_encodes = base64_encodes_url"
  shows "\<exists>m'. fio_base64_encode_internal m target data len base64_encodes
                 = Some (m', 4 * ((len + 2) div 3))
              \<and> trailing_pad (load m' target (nat (4 * ((len + 2) div 3))))
                 = (if len mod 3 = 0 then 0 else if len mod 3 = 1 then 2 else 1)
              \<and> (target = data \<or> target + 4 * ((len + 2) div 3) < data \<or> data + len \<le> target
                   \<longrightarrow> load m' target (nat (4 * ((len + 2) div 3)))
                       = spec_encode base64_encodes (load m data (nat len)))"
proof -
  have nopad: "\<And>i. i < 64 \<Longrightarrow> base64_encodes ! i \<noteq> PAD"
    using assms(3) no_pad_original no_pad_url by auto
  have pad: "\<exists>m'. fio_base64_encode_internal m target data len base64_encodes
                 = Some (m', 4 * ((len + 2) div 3))
              \<and> trailing_pad (load m' target (nat (4 * ((len + 2) div 3))))
                 = (if len mod 3 = 0 then 0 else if len mod 3 = 1 then 2 else 1)"
    using assms(1)
  proof (cases len rule: split_len)
    case (1 g)
    have "nat (4 * ((len + 2) div 3)) = 4 * g" using 1 by simp
    moreover have "3 * int g \<le> 1610612733" using assms(2) 1 by simp
    ultimately show ?thesis
      using 1 trailing_pad_mod0 [OF nopad, of g _ target]
      by (simp add: encode_internal_mod0)
  next
    case (2 g)
    have "nat (4 * ((len + 2) div 3)) = 4 * g + 4" using 2 by simp
    moreover have "3 * int g + 1 \<le> 1610612733" using assms(2) 2 by simp
    ultimately show ?thesis
      using 2 trailing_pad_mod1 [OF nopad, of g _ target]
      by (simp add: encode_internal_mod1)
  next
    case (3 g)
    have "nat (4 * ((len + 2) div 3)) = 4 * g + 4" using 3 by simp
    moreover have "3 * int g + 2 \<le> 1610612733" using assms(2) 3 by simp
    ultimately show ?thesis
      using 3 trailing_pad_mod2 [OF nopad, of g _ target]
      by (simp add: encode_internal_mod2)
  qed
  show ?thesis
  proof (cases "target = data \<or> target + 4 * ((len + 2) div 3) < data \<or> data + len \<le> target")
    case True
    from encode_internal_spec [OF assms(1,2) True, of m base64_encodes] pad
    show ?thesis by auto
  next
    case False
    with pad show ?thesis by auto
  qed
qed

text \<open>
  The four bytes \<open>foob\<close> at address 100, encoded into address 200, give the eight
  characters \<open>Zm9vYg==\<close>, which end in two \<open>=\<close>.
\<close>

theorem encode_length_and_padding_witness:
  "(0::int) \<le> 4 \<and> (4::int) \<le> 1610612733
   \<and> (base64_encodes_original = base64_encodes_original \<or> base64_encodes_original = base64_encodes_url)
   \<and> ((200::int) = 100 \<or> (200::int) + 4 * ((4 + 2) div 3) < 100 \<or> (100::int) + 4 \<le> 200)
   \<and> (\<exists>m'. fio_base64_encode_internal (store blank 100 (bytes_of ''foob'')) 200 100 4
               base64_encodes_original = Some (m', 8)
           \<and> trailing_pad (load m' 200 8) = 2
           \<and> load m' 200 8 = bytes_of ''Zm9vYg=='')"
proof -
  have "spec_encode base64_encodes_original (load (store blank 100 (bytes_of ''foob'')) 100 (nat 4))
      = bytes_of ''Zm9vYg==''"
    by code_simp
  then show ?thesis
    using encode_length_and_padding
            [of 4 base64_encodes_original "store blank 100 (bytes_of ''foob'')" 200 100]
    by simp
qed

section \<open>Encoding in place\<close>





section \<open>The encoder's terminator\<close>

text \<open>
  For every \<open>len\<close> from 0 to 1610612733 the encoder leaves every byte in front of \<open>target\<close> and
  every byte after index \<open>4 * ceil(len/3)\<close> as it was, and the byte at index
  \<open>4 * ceil(len/3)\<close> itself is zero after the call.
\<close>

lemma encode_writes_within:
  assumes "0 \<le> len" "len \<le> 1610612733"
    and "a < target \<or> target + 4 * ((len + 2) div 3) < a"
  shows "\<exists>m'. fio_base64_encode_internal m target data len be
                 = Some (m', 4 * ((len + 2) div 3)) \<and> m' a = m a"
proof -
  from assms(1) show ?thesis
  proof (cases len rule: split_len)
    case (1 g)
    have bound: "3 * int g \<le> 1610612733" using assms(2) 1 by simp
    have sz: "4 * ((len + 2) div 3) = 4 * int g" using 1 by simp
    have a: "a < target \<or> target + 4 * int g < a" using assms(3) sz by linarith
    have "encode_groups_nat be g (m(target + 4 * int g := 0))
            (target + 4 * int g - 1) (data + 3 * int g - 1) a = (m(target + 4 * int g := 0)) a"
      using a by (intro encode_groups_nat_frame) auto
    moreover have "(m(target + 4 * int g := 0)) a = m a"
      using a by auto
    ultimately show ?thesis
      unfolding sz unfolding 1(1) encode_internal_mod0 [OF bound] by simp
  next
    case (2 g)
    have bound: "3 * int g + 1 \<le> 1610612733" using assms(2) 2 by simp
    have sz: "4 * ((len + 2) div 3) = 4 * int g + 4" using 2 by simp
    have a: "a < target \<or> target + 4 * int g + 4 < a" using assms(3) sz by linarith
    let ?z = "m(target + 4 * int g + 4 := 0)"
    let ?t = "encode_tail1 be ?z (target + 4 * int g + 3) (data + 3 * int g)"
    have "encode_groups_nat be g ?t (target + 4 * int g - 1) (data + 3 * int g - 1) a = ?t a"
      using a by (intro encode_groups_nat_frame) auto
    moreover have "?t a = ?z a"
      using a by (intro encode_tail1_frame) auto
    moreover have "?z a = m a"
      using a by auto
    ultimately show ?thesis
      unfolding sz unfolding 2(1) encode_internal_mod1 [OF bound] by simp
  next
    case (3 g)
    have bound: "3 * int g + 2 \<le> 1610612733" using assms(2) 3 by simp
    have sz: "4 * ((len + 2) div 3) = 4 * int g + 4" using 3 by simp
    have a: "a < target \<or> target + 4 * int g + 4 < a" using assms(3) sz by linarith
    let ?z = "m(target + 4 * int g + 4 := 0)"
    let ?t = "encode_tail2 be ?z (target + 4 * int g + 3) (data + 3 * int g + 1)"
    have "encode_groups_nat be g ?t (target + 4 * int g - 1) (data + 3 * int g - 1) a = ?t a"
      using a by (intro encode_groups_nat_frame) auto
    moreover have "?t a = ?z a"
      using a by (intro encode_tail2_frame) auto
    moreover have "?z a = m a"
      using a by auto
    ultimately show ?thesis
      unfolding sz unfolding 3(1) encode_internal_mod2 [OF bound] by simp
  qed
qed

lemma encode_terminator_always:
  assumes "0 \<le> len" "len \<le> 1610612733"
  shows "\<exists>m'. fio_base64_encode_internal m target data len be
                 = Some (m', 4 * ((len + 2) div 3))
              \<and> m' (target + 4 * ((len + 2) div 3)) = 0"
proof -
  from assms(1) show ?thesis
  proof (cases len rule: split_len)
    case (1 g)
    have bound: "3 * int g \<le> 1610612733" using assms(2) 1 by simp
    have sz: "4 * ((len + 2) div 3) = 4 * int g" using 1 by simp
    have "encode_groups_nat be g (m(target + 4 * int g := 0))
            (target + 4 * int g - 1) (data + 3 * int g - 1) (target + 4 * int g)
          = (m(target + 4 * int g := 0)) (target + 4 * int g)"
      by (intro encode_groups_nat_frame) auto
    then show ?thesis
      unfolding sz unfolding 1(1) encode_internal_mod0 [OF bound] by simp
  next
    case (2 g)
    have bound: "3 * int g + 1 \<le> 1610612733" using assms(2) 2 by simp
    have sz: "4 * ((len + 2) div 3) = 4 * int g + 4" using 2 by simp
    let ?z = "m(target + 4 * int g + 4 := 0)"
    let ?t = "encode_tail1 be ?z (target + 4 * int g + 3) (data + 3 * int g)"
    have "encode_groups_nat be g ?t (target + 4 * int g - 1) (data + 3 * int g - 1)
            (target + 4 * int g + 4) = ?t (target + 4 * int g + 4)"
      by (intro encode_groups_nat_frame) auto
    moreover have "?t (target + 4 * int g + 4) = ?z (target + 4 * int g + 4)"
      by (intro encode_tail1_frame) auto
    ultimately have "encode_groups_nat be g ?t (target + 4 * int g - 1) (data + 3 * int g - 1)
            (target + (4 * int g + 4)) = 0"
      by (simp add: add.assoc)
    then show ?thesis
      unfolding sz unfolding 2(1) encode_internal_mod1 [OF bound] by simp
  next
    case (3 g)
    have bound: "3 * int g + 2 \<le> 1610612733" using assms(2) 3 by simp
    have sz: "4 * ((len + 2) div 3) = 4 * int g + 4" using 3 by simp
    let ?z = "m(target + 4 * int g + 4 := 0)"
    let ?t = "encode_tail2 be ?z (target + 4 * int g + 3) (data + 3 * int g + 1)"
    have "encode_groups_nat be g ?t (target + 4 * int g - 1) (data + 3 * int g - 1)
            (target + 4 * int g + 4) = ?t (target + 4 * int g + 4)"
      by (intro encode_groups_nat_frame) auto
    moreover have "?t (target + 4 * int g + 4) = ?z (target + 4 * int g + 4)"
      by (intro encode_tail2_frame) auto
    ultimately have "encode_groups_nat be g ?t (target + 4 * int g - 1) (data + 3 * int g - 1)
            (target + (4 * int g + 4)) = 0"
      by (simp add: add.assoc)
    then show ?thesis
      unfolding sz unfolding 3(1) encode_internal_mod2 [OF bound] by simp
  qed
qed

text \<open>
  Claim C3 (the encoder writes the returned characters only, and no zero byte at index
  \<open>4*ceil(len/3)\<close>). The statement \<open>writer[1] = 0\<close> writes one: encoding \<open>foo\<close> returns
  4 and the byte at index 4 of the output, \<open>0xFF\<close> before the call, is zero after it,
  with either alphabet.
\<close>

theorem encode_writes_terminator:
  "load (store blank 100 (bytes_of ''foo'')) 200 5 = [0xFF, 0xFF, 0xFF, 0xFF, 0xFF]
   \<and> view 200 5 (fio_base64_encode (store blank 100 (bytes_of ''foo'')) 200 100 3)
     = Some (4, bytes_of ''Zm9v'' @ [0])
   \<and> view 200 5 (fio_base64url_encode (store blank 100 (bytes_of ''foo'')) 200 100 3)
     = Some (4, bytes_of ''Zm9v'' @ [0])"
  by code_simp

section \<open>Round trip\<close>

text \<open>
  Claim C1 (round trip: decoding the text produced by the encoder yields the input bytes
  and their count, for every byte sequence and both alphabets). The code does not do this:
  the six bytes \<open>foo\0\0\0\<close> at address 100 are encoded to \<open>Zm9vAAAA\<close> at address 200,
  and decoding these eight characters into address 300 returns 3, not 6, and writes only
  \<open>foo\<close> and the terminating zero. The character \<open>A\<close> has table value 0 and is
  skipped as unknown data.
\<close>

theorem roundtrip_loses_zero_bytes:
  "view 200 8 (fio_base64_encode (store blank 100 [0x66, 0x6F, 0x6F, 0, 0, 0]) 200 100 6)
     = Some (8, bytes_of ''Zm9vAAAA'')
   \<and> view 300 6 (encode_then_decode base64_encodes_original
                   (store blank 100 [0x66, 0x6F, 0x6F, 0, 0, 0]) 300 200 100 6)
     = Some (3, [0x66, 0x6F, 0x6F, 0, 0xFF, 0xFF])
   \<and> view 300 6 (encode_then_decode base64_encodes_url
                   (store blank 100 [0x66, 0x6F, 0x6F, 0, 0, 0]) 300 200 100 6)
     = Some (3, [0x66, 0x6F, 0x6F, 0, 0xFF, 0xFF])"
  by code_simp

section \<open>Output of the decoder\<close>

text \<open>
  Claim C2 (the decoder writes at most \<open>floor(len/4)*3 + 3\<close> bytes, the terminating zero
  included). For the three characters \<open>QUJ\<close> the bound is 3, and the decoder writes four
  bytes: three from the \<open>case 3\<close> tail and the zero byte at index 3.
\<close>

theorem decode_writes_past_documented_size:
  "(3::int) div 4 * 3 + 3 = 3
   \<and> load (store blank 100 (bytes_of ''QUJ'')) 300 4 = [0xFF, 0xFF, 0xFF, 0xFF]
   \<and> view 300 4 (fio_base64_decode (store blank 100 (bytes_of ''QUJ'')) 300 100 3)
     = Some (3, [0x40, 0x42, 0x40, 0])"
  by code_simp

text \<open>
  Claim C4 (a zero byte is written at index \<open>written\<close> on every return path). On the
  path through \<open>oops1\<close> it is not: for the C string \<open>"B   "\<close> with length 4 the decoder
  returns 1 and the byte at index 1 of the output is left as it was.
\<close>

theorem decode_oops_path_has_no_terminator:
  "view 300 3 (fio_base64_decode (store blank 100 (bytes_of ''B   '' @ [0])) 300 100 4)
     = Some (1, [0x01, 0xFF, 0xFF])"
  by code_simp

text \<open>
  Claim C5 (inserting bytes that are neither alphabet characters nor \<open>=\<close> into a valid
  encoded string changes neither the returned count nor the output). \<open>Zg==\<close> decodes to
  the one byte \<open>f\<close>. With a line feed after it the decoder returns 3, with a line feed
  between the two padding characters it returns 2, and with a line feed in front it
  returns 0.
\<close>

theorem decode_inserted_newline_changes_result:
  "view 300 4 (fio_base64_decode (store blank 100 (bytes_of ''Zg=='')) 300 100 4)
     = Some (1, [0x66, 0, 0, 0xFF])
   \<and> view 300 4 (fio_base64_decode (store blank 100 (bytes_of ''Zg=='' @ [0x0A])) 300 100 5)
     = Some (3, [0x66, 0, 0, 0])
   \<and> view 300 4 (fio_base64_decode
                   (store blank 100 (bytes_of ''Zg='' @ [0x0A] @ bytes_of ''='')) 300 100 5)
     = Some (2, [0x66, 0, 0, 0xFF])
   \<and> view 300 4 (fio_base64_decode (store blank 100 ([0x0A] @ bytes_of ''Zg=='')) 300 100 5)
     = Some (0, [0, 0xFF, 0xFF, 0xFF])"
  by code_simp

text \<open>With \<open>base64_len \<le> 0\<close> the decoder writes one zero byte at \<open>target\<close> and returns 0.\<close>

lemma decode_empty:
  "base64_len \<le> 0 \<Longrightarrow>
     fio_base64_decode m target encoded base64_len
       = Some (m((if target = 0 then encoded else target) := 0), 0)"
  by (simp add: fio_base64_decode_def)

text \<open>
  Claim C6 (the decoder never signals an error, and for empty input and for input made of
  unrecognised bytes only it returns 0 and writes one zero byte at index 0). The padding
  test reads the byte in front of the input even when nothing was consumed: for the three
  spaces that follow \<open>k=\<close> in a buffer the decoder returns \<open>-1\<close> and writes the zero
  byte in front of the output buffer, leaving index 0 as it was.
\<close>

theorem decode_unrecognised_after_equals_sign:
  "load (store blank 98 (bytes_of ''k=   '')) 100 3 = bytes_of ''   ''
   \<and> view 299 3 (fio_base64_decode (store blank 98 (bytes_of ''k=   '')) 300 100 3)
     = Some (- 1, [0, 0xFF, 0xFF])"
  by code_simp

section \<open>Table value 0\<close>

text \<open>
  The bytes with a table entry other than 0 are \<open>+\<close>, the comma, \<open>-\<close>, \<open>/\<close>, the
  digits, \<open>=\<close>, the letters \<open>B\<close> to \<open>Z\<close>, \<open>_\<close> and the letters \<open>a\<close> to
  \<open>z\<close>. Every other byte, and \<open>A\<close>, has the entry 0.
\<close>

lemma base64_decodes_zero_iff:
  "base64_decodes ! unat (b :: byte) = 0 \<longleftrightarrow>
     \<not> (b = 0x2B \<or> b = 0x2C \<or> b = 0x2D \<or> b = 0x2F \<or> (0x30 \<le> b \<and> b \<le> 0x39) \<or> b = 0x3D
        \<or> (0x42 \<le> b \<and> b \<le> 0x5A) \<or> b = 0x5F \<or> (0x61 \<le> b \<and> b \<le> 0x7A))"
proof -
  let ?sym = "\<lambda>i::nat. i = 43 \<or> i = 44 \<or> i = 45 \<or> i = 47 \<or> (48 \<le> i \<and> i \<le> 57) \<or> i = 61
     \<or> (66 \<le> i \<and> i \<le> 90) \<or> i = 95 \<or> (97 \<le> i \<and> i \<le> 122)"
  have t: "map (\<lambda>w. w = 0) base64_decodes = map (\<lambda>i. \<not> ?sym i) [0..<256]"
    by code_simp
  have "unat b < 2 ^ LENGTH(8)" by (rule unsigned_less)
  then have b: "unat b < 256" by simp
  have len: "length base64_decodes = 256" by (simp add: base64_decodes_def)
  have "(base64_decodes ! unat b = 0) = map (\<lambda>w. w = 0) base64_decodes ! unat b"
    using b len by simp
  also have "\<dots> = map (\<lambda>i. \<not> ?sym i) [0..<256] ! unat b"
    by (simp only: t)
  also have "\<dots> = (\<not> ?sym (unat b))"
    using b by simp
  finally have "(base64_decodes ! unat b = 0) = (\<not> ?sym (unat b))" .
  then show ?thesis
    by (simp add: word_le_nat_alt word_unat_eq_iff)
qed

lemma skip_unknown_at_end_zero:
  "base64_decodes ! unat (m encoded) = 0 \<Longrightarrow> skip_unknown_at_end m encoded (int n) = Some 0"
proof (induction n)
  case 0
  show ?case by (subst skip_unknown_at_end.simps) simp
next
  case (Suc n)
  then show ?case by (subst skip_unknown_at_end.simps) simp
qed

lemma skip_unknown_at_end_stop:
  "base64_decodes ! unat (m encoded) \<noteq> 0 \<Longrightarrow> skip_unknown_at_end m encoded n = Some n"
  by (subst skip_unknown_at_end.simps) simp

lemma decode_groups_zero:
  "decode_groups m target encoded 0 written
     = Some (decode_finish (m, target, encoded, written))"
  by (subst decode_groups.simps) (simp add: decode_tail_def)

text \<open>
  Claim C10 (an input whose first byte has table value 0 is not decoded at all). For every
  length \<open>len \<ge> 1\<close> and every store in which the first input byte has table value 0,
  the first loop leaves \<open>base64_len = 0\<close> (the cursor stays on that byte), the main loop
  and the tail switch are not entered, and the only byte written is the terminating zero:
  at output index 0 with returned count 0, or, when the byte in front of the input is
  \<open>=\<close>, one or two places in front of the output with returned count \<open>-1\<close> or
  \<open>-2\<close>. No decoded byte is written, whatever follows the first byte.
\<close>

theorem decode_first_byte_value_zero:
  assumes "1 \<le> len"
    and "base64_decodes ! unat (m encoded) = 0"
  shows "skip_unknown_at_end m encoded len = Some 0
       \<and> fio_base64_decode m target encoded len
         = (let t = (if target = 0 then encoded else target)
            in if m (encoded - 1) \<noteq> PAD then Some (m(t := 0), 0)
               else if m (encoded - 2) \<noteq> PAD then Some (m(t - 1 := 0), - 1)
               else Some (m(t - 2 := 0), - 2))"
proof -
  have s: "skip_unknown_at_end m encoded len = Some 0"
    using skip_unknown_at_end_zero [of m encoded "nat len"] assms by simp
  then show ?thesis
    using assms(1)
    by (simp add: fio_base64_decode_def decode_groups_zero decode_finish_def Let_def)
qed

text \<open>\<open>AZm9v\<close>: the leading \<open>A\<close> has table value 0, and \<open>Zm9v\<close> is not decoded.\<close>

theorem decode_first_byte_value_zero_witness:
  "(1::int) \<le> 5
   \<and> base64_decodes ! unat (store blank 100 (bytes_of ''AZm9v'') 100) = 0
   \<and> skip_unknown_at_end (store blank 100 (bytes_of ''AZm9v'')) 100 5 = Some 0
   \<and> fio_base64_decode (store blank 100 (bytes_of ''AZm9v'')) 300 100 5
       = Some ((store blank 100 (bytes_of ''AZm9v''))(300 := 0), 0)"
proof -
  have t: "base64_decodes ! unat (store blank 100 (bytes_of ''AZm9v'') 100) = 0"
    by (simp add: bytes_of_def blank_def base64_decodes_def)
  have p: "store blank 100 (bytes_of ''AZm9v'') (100 - 1) \<noteq> PAD"
    by (simp add: bytes_of_def blank_def)
  show ?thesis
    using decode_first_byte_value_zero [of 5 "store blank 100 (bytes_of ''AZm9v'')" 100 300] t p
    by (simp add: Let_def)
qed

text \<open>
  Claim C9 (the table maps both \<open>A\<close> and \<open>a\<close> to 0, so that the skip condition skips
  a leading \<open>A\<close> or \<open>a\<close>). As stated it fails: the entry for \<open>a\<close> (byte
  \<open>0x61\<close>) is 26.
\<close>

theorem backward_table_A_and_a_counterexample:
  "\<not> (base64_decodes ! unat (0x41 :: byte) = 0 \<and> base64_decodes ! unat (0x61 :: byte) = 0)"
  by (simp add: base64_decodes_def)

text \<open>
  Claim C9 as amended: the table maps \<open>A\<close> to 0, as it does unknown bytes, and \<open>a\<close>
  to 26. So the skip loop steps over an \<open>A\<close> under the read cursor whenever
  \<open>base64_len\<close> is not 0, instead of leaving it to be consumed as symbol 0, and it never
  steps over an \<open>a\<close>. For instance \<open>Zm9vAAAB\<close>, the encoding of \<open>foo\0\0\1\<close>, is
  decoded to the four bytes \<open>foo\1\<close>: the three \<open>A\<close> that lead the second group
  are skipped.
\<close>

theorem skip_conflates_A_only:
  "base64_decodes ! unat (0x41 :: byte) = 0
   \<and> base64_decodes ! unat (0x61 :: byte) = 26
   \<and> (m encoded = 0x41 \<and> base64_len \<noteq> 0 \<longrightarrow>
        skip_unknown m encoded base64_len = skip_unknown m (encoded + 1) (base64_len - 1))
   \<and> (m encoded = 0x61 \<longrightarrow> skip_unknown m encoded base64_len = Some (encoded, base64_len))
   \<and> view 300 5 (fio_base64_decode (store blank 100 (bytes_of ''Zm9vAAAB'')) 300 100 8)
     = Some (4, [0x66, 0x6F, 0x6F, 0x01, 0])"
proof -
  have d: "view 300 5 (fio_base64_decode (store blank 100 (bytes_of ''Zm9vAAAB'')) 300 100 8)
     = Some (4, [0x66, 0x6F, 0x6F, 0x01, 0])"
    by code_simp
  have A: "base64_decodes ! unat (0x41 :: byte) = 0"
    by (simp add: base64_decodes_def)
  have a: "base64_decodes ! unat (0x61 :: byte) = 26"
    by (simp add: base64_decodes_def)
  have "skip_unknown m encoded base64_len = skip_unknown m (encoded + 1) (base64_len - 1)"
    if "m encoded = 0x41" "base64_len \<noteq> 0"
    using that A by (subst skip_unknown.simps) simp
  moreover have "skip_unknown m encoded base64_len = Some (encoded, base64_len)"
    if "m encoded = 0x61"
    using that a by (subst skip_unknown.simps) simp
  ultimately show ?thesis using A a d by blast
qed

text \<open>On \<open>Aa\<close> the skip loop steps over the \<open>A\<close> and stops at the \<open>a\<close>.\<close>

theorem skip_conflates_A_only_witness:
  "store blank 100 (bytes_of ''Aa'') 100 = 0x41 \<and> (2::int) \<noteq> 0
   \<and> store blank 100 (bytes_of ''Aa'') 101 = 0x61
   \<and> skip_unknown (store blank 100 (bytes_of ''Aa'')) 100 2 = Some (101, 1)"
proof -
  have m: "store blank 100 (bytes_of ''Aa'') 100 = 0x41"
    "store blank 100 (bytes_of ''Aa'') 101 = 0x61"
    by (simp_all add: bytes_of_def blank_def)
  show ?thesis
    using skip_conflates_A_only [of "store blank 100 (bytes_of ''Aa'')" 100 2]
      skip_conflates_A_only [of "store blank 100 (bytes_of ''Aa'')" 101 1] m
    by simp
qed

end
